theory Spec2Isabelle
  imports Main "HOL-Library.Word"
begin

unbundle bit_operations_syntax

section \<open>Python values\<close>

text \<open>
  Python integers are unbounded (\<open>int\<close>); a \<open>bytes\<close> object is a list of 8-bit words.
  The exceptions the two codec functions could raise are values of \<open>error\<close>.
\<close>

datatype error = IndexError | ValueError

type_synonym byte = "8 word"

text \<open>\<open>xs[i]\<close> on a Python list: indices from \<open>-len(xs)\<close> to \<open>-1\<close> count from the end,
  anything outside \<open>-len(xs) .. len(xs) - 1\<close> raises IndexError.\<close>

definition list_index :: "'a list \<Rightarrow> int \<Rightarrow> error + 'a" where
  "list_index xs i =
     (if 0 \<le> i \<and> i < int (length xs) then Inr (xs ! nat i)
      else if i < 0 \<and> - int (length xs) \<le> i then Inr (xs ! nat (int (length xs) + i))
      else Inl IndexError)"

text \<open>\<open>x << n\<close> and \<open>x >> n\<close>: a negative shift count raises ValueError.\<close>

definition lshift :: "int \<Rightarrow> int \<Rightarrow> error + int" where
  "lshift x n = (if n < 0 then Inl ValueError else Inr (push_bit (nat n) x))"

definition rshift :: "int \<Rightarrow> int \<Rightarrow> error + int" where
  "rshift x n = (if n < 0 then Inl ValueError else Inr (drop_bit (nat n) x))"

text \<open>\<open>bytes(xs)\<close> of a list of integers: ValueError unless every element is in \<open>range(256)\<close>.\<close>

definition in_byte_range :: "int \<Rightarrow> bool" where
  "in_byte_range x = (0 \<le> x \<and> x < 256)"

definition bytes_of :: "int list \<Rightarrow> error + byte list" where
  "bytes_of xs = (if list_all in_byte_range xs then Inr (map word_of_int xs) else Inl ValueError)"

section \<open>The encoder: \<open>encode_2bit_adpcm\<close> of \<open>wav_to_adpcm_c.py\<close>\<close>

definition enc_step_table :: "int list" where
  "enc_step_table = [2, 3, 4, 5, 6, 8, 10, 13, 16, 20, 25, 32, 40, 50, 63, 80]"

definition enc_index_table :: "int list" where
  "enc_index_table = [-1, -1, 2, 2]"

text \<open>The local variables of either function that carry the adaptive quantizer state.\<close>

record quantizer =
  predictor :: int
  step_index :: int

text \<open>The encoder's remaining locals: the bytes emitted so far, the byte being filled and
  the number of codes already in it.\<close>

record encoder = quantizer +
  encoded :: "int list"
  current_byte :: int
  sample_in_byte :: int

definition encoder_init :: encoder where
  "encoder_init =
     \<lparr>predictor = 128, step_index = 0, encoded = [], current_byte = 0, sample_in_byte = 0\<rparr>"

text \<open>Lines 46--67: the difference to the predictor, the step looked up in the table and the
  code chosen by the threshold chain. Returns the step and the code.\<close>

definition enc_quantize :: "encoder \<Rightarrow> int \<Rightarrow> error + int \<times> int" where
  "enc_quantize s sample =
     (let diff = sample - predictor s in
      case list_index enc_step_table (step_index s) of
        Inl e \<Rightarrow> Inl e
      | Inr step \<Rightarrow>
          Inr (step,
               if diff < - step - step div 2 then 2
               else if diff < 0 then 0
               else if diff < step + step div 2 then 1
               else 3))"

text \<open>Lines 71--72: the code is shifted to its place and merged into the current byte.\<close>

definition enc_pack :: "encoder \<Rightarrow> int \<Rightarrow> error + int" where
  "enc_pack s code =
     (let shift = 6 - sample_in_byte s * 2 in
      case lshift code shift of
        Inl e \<Rightarrow> Inl e
      | Inr v \<Rightarrow> Inr (current_byte s OR v))"

text \<open>Lines 76--98: the delta of the code, the clamped new predictor and the clamped new
  step index.\<close>

definition enc_update :: "int \<Rightarrow> int \<Rightarrow> int \<Rightarrow> int \<Rightarrow> error + int \<times> int" where
  "enc_update pred idx step code =
     (let delta = (if code = 0 then - step
                   else if code = 1 then step
                   else if code = 2 then - step * 2
                   else step * 2);
          new_predictor = pred + delta;
          new_predictor = (if new_predictor < 0 then 0
                           else if new_predictor > 255 then 255
                           else new_predictor)
      in case list_index enc_index_table code of
           Inl e \<Rightarrow> Inl e
         | Inr adj \<Rightarrow>
             (let new_index = idx + adj;
                  new_index = (if new_index < 0 then 0
                               else if new_index > 15 then 15
                               else new_index)
              in Inr (new_predictor, new_index)))"

text \<open>The body of the loop over the samples (lines 44--105).\<close>

definition encode_sample :: "encoder \<Rightarrow> int \<Rightarrow> error + encoder" where
  "encode_sample s sample =
     (case enc_quantize s sample of
        Inl e \<Rightarrow> Inl e
      | Inr (step, code) \<Rightarrow>
          (case enc_pack s code of
             Inl e \<Rightarrow> Inl e
           | Inr packed \<Rightarrow>
               (case enc_update (predictor s) (step_index s) step code of
                  Inl e \<Rightarrow> Inl e
                | Inr (new_predictor, new_index) \<Rightarrow>
                    Inr (if sample_in_byte s + 1 \<ge> 4
                         then s\<lparr>predictor := new_predictor, step_index := new_index,
                                encoded := encoded s @ [packed],
                                current_byte := 0, sample_in_byte := 0\<rparr>
                         else s\<lparr>predictor := new_predictor, step_index := new_index,
                                current_byte := packed,
                                sample_in_byte := sample_in_byte s + 1\<rparr>))))"

fun encode_loop :: "encoder \<Rightarrow> int list \<Rightarrow> error + encoder" where
  "encode_loop s [] = Inr s"
| "encode_loop s (sample # rest) =
     (case encode_sample s sample of
        Inl e \<Rightarrow> Inl e
      | Inr s' \<Rightarrow> encode_loop s' rest)"

text \<open>Lines 107--111: a partially filled byte is appended, and the list becomes \<open>bytes\<close>.\<close>

definition encode_finish :: "encoder \<Rightarrow> error + byte list" where
  "encode_finish s =
     bytes_of (if sample_in_byte s > 0 then encoded s @ [current_byte s] else encoded s)"

text \<open>The function as \<open>main\<close> calls it: on the \<open>bytes\<close> of the 8-bit PCM data, each element
  read as an integer from 0 to 255.\<close>

definition encode_2bit_adpcm :: "byte list \<Rightarrow> error + byte list" where
  "encode_2bit_adpcm audio_data =
     (case encode_loop encoder_init (map uint audio_data) of
        Inl e \<Rightarrow> Inl e
      | Inr s \<Rightarrow> encode_finish s)"

text \<open>What the loop does, iteration by iteration: the code chosen for each sample and the
  predictor and step index after the update of that iteration.\<close>

fun encode_trace :: "encoder \<Rightarrow> int list \<Rightarrow> (int \<times> int \<times> int) list" where
  "encode_trace s [] = []"
| "encode_trace s (sample # rest) =
     (case enc_quantize s sample of
        Inl e \<Rightarrow> []
      | Inr (step, code) \<Rightarrow>
          (case encode_sample s sample of
             Inl e \<Rightarrow> []
           | Inr s' \<Rightarrow> (code, predictor s', step_index s') # encode_trace s' rest))"

section \<open>The decoder: \<open>decode_2bit_adpcm\<close> of \<open>adpcm_2bit_decoder.py\<close>\<close>

definition dec_step_table :: "int list" where
  "dec_step_table = [2, 3, 4, 5, 6, 8, 10, 13, 16, 20, 25, 32, 40, 50, 63, 80]"

definition dec_index_table :: "int list" where
  "dec_index_table = [-1, -1, 2, 2]"

record decoder = quantizer +
  decoded :: "int list"

definition decoder_init :: decoder where
  "decoder_init = \<lparr>predictor = 128, step_index = 0, decoded = []\<rparr>"

text \<open>Lines 36--37: the \<open>i\<close>-th code of a byte.\<close>

definition dec_extract :: "int \<Rightarrow> int \<Rightarrow> error + int" where
  "dec_extract byte_val i =
     (let shift = 6 - i * 2 in
      case rshift byte_val shift of
        Inl e \<Rightarrow> Inl e
      | Inr v \<Rightarrow> Inr (v AND 3))"

text \<open>Lines 42--67 without the append: delta, clamped new predictor, clamped new step index.\<close>

definition dec_update :: "int \<Rightarrow> int \<Rightarrow> int \<Rightarrow> int \<Rightarrow> error + int \<times> int" where
  "dec_update pred idx step code =
     (let delta = (if code = 0 then - step
                   else if code = 1 then step
                   else if code = 2 then - step * 2
                   else step * 2);
          new_predictor = pred + delta;
          new_predictor = (if new_predictor < 0 then 0
                           else if new_predictor > 255 then 255
                           else new_predictor)
      in case list_index dec_index_table code of
           Inl e \<Rightarrow> Inl e
         | Inr adj \<Rightarrow>
             (let new_index = idx + adj;
                  new_index = (if new_index < 0 then 0
                               else if new_index > 15 then 15
                               else new_index)
              in Inr (new_predictor, new_index)))"

text \<open>The body of the inner loop (lines 36--67) for one value of \<open>i\<close>.\<close>

definition decode_code :: "decoder \<Rightarrow> int \<Rightarrow> int \<Rightarrow> error + decoder" where
  "decode_code s byte_val i =
     (case dec_extract byte_val i of
        Inl e \<Rightarrow> Inl e
      | Inr code \<Rightarrow>
          (case list_index dec_step_table (step_index s) of
             Inl e \<Rightarrow> Inl e
           | Inr step \<Rightarrow>
               (case dec_update (predictor s) (step_index s) step code of
                  Inl e \<Rightarrow> Inl e
                | Inr (new_predictor, new_index) \<Rightarrow>
                    Inr (s\<lparr>predictor := new_predictor, step_index := new_index,
                           decoded := decoded s @ [new_predictor]\<rparr>))))"

text \<open>The inner loop over a list of positions; \<open>range(4)\<close> is \<open>[0, 1, 2, 3]\<close>.\<close>

fun decode_positions :: "decoder \<Rightarrow> int \<Rightarrow> int list \<Rightarrow> error + decoder" where
  "decode_positions s byte_val [] = Inr s"
| "decode_positions s byte_val (i # rest) =
     (case decode_code s byte_val i of
        Inl e \<Rightarrow> Inl e
      | Inr s' \<Rightarrow> decode_positions s' byte_val rest)"

definition decode_byte :: "decoder \<Rightarrow> int \<Rightarrow> error + decoder" where
  "decode_byte s byte_val = decode_positions s byte_val [0, 1, 2, 3]"

fun decode_loop :: "decoder \<Rightarrow> int list \<Rightarrow> error + decoder" where
  "decode_loop s [] = Inr s"
| "decode_loop s (byte_val # rest) =
     (case decode_byte s byte_val of
        Inl e \<Rightarrow> Inl e
      | Inr s' \<Rightarrow> decode_loop s' rest)"

definition decode_2bit_adpcm :: "byte list \<Rightarrow> error + byte list" where
  "decode_2bit_adpcm compressed_data =
     (case decode_loop decoder_init (map uint compressed_data) of
        Inl e \<Rightarrow> Inl e
      | Inr s \<Rightarrow> bytes_of (decoded s))"

text \<open>The decoder's iterations: the code extracted and the predictor and step index after
  the update, for every position of every byte.\<close>

fun decode_positions_trace :: "decoder \<Rightarrow> int \<Rightarrow> int list \<Rightarrow> (int \<times> int \<times> int) list" where
  "decode_positions_trace s byte_val [] = []"
| "decode_positions_trace s byte_val (i # rest) =
     (case dec_extract byte_val i of
        Inl e \<Rightarrow> []
      | Inr code \<Rightarrow>
          (case decode_code s byte_val i of
             Inl e \<Rightarrow> []
           | Inr s' \<Rightarrow>
               (code, predictor s', step_index s') # decode_positions_trace s' byte_val rest))"

fun decode_trace :: "decoder \<Rightarrow> int list \<Rightarrow> (int \<times> int \<times> int) list" where
  "decode_trace s [] = []"
| "decode_trace s (byte_val # rest) =
     decode_positions_trace s byte_val [0, 1, 2, 3] @
     (case decode_byte s byte_val of
        Inl e \<Rightarrow> []
      | Inr s' \<Rightarrow> decode_trace s' rest)"

section \<open>The quantizer as a pure state machine\<close>

text \<open>
  The definitions of this section serve the proofs: the state machine both functions run,
  without the error branches, and the packing of four codes into a byte.
\<close>

definition valid_q :: "int \<Rightarrow> int \<Rightarrow> bool" where
  "valid_q p i = (0 \<le> p \<and> p \<le> 255 \<and> 0 \<le> i \<and> i \<le> 15)"

definition q_step :: "int \<Rightarrow> int" where
  "q_step i = enc_step_table ! nat i"

definition q_code :: "int \<Rightarrow> int \<Rightarrow> int \<Rightarrow> int" where
  "q_code p i x =
     (if x - p < - q_step i - q_step i div 2 then 2
      else if x - p < 0 then 0
      else if x - p < q_step i + q_step i div 2 then 1
      else 3)"

definition q_pred :: "int \<Rightarrow> int \<Rightarrow> int \<Rightarrow> int" where
  "q_pred p i c =
     max 0 (min 255 (p + (if c = 0 then - q_step i
                          else if c = 1 then q_step i
                          else if c = 2 then - q_step i * 2
                          else q_step i * 2)))"

definition q_index :: "int \<Rightarrow> int \<Rightarrow> int" where
  "q_index i c = max 0 (min 15 (i + enc_index_table ! nat c))"

fun q_run :: "int \<Rightarrow> int \<Rightarrow> int list \<Rightarrow> (int \<times> int \<times> int) list" where
  "q_run p i [] = []"
| "q_run p i (c # cs) = (c, q_pred p i c, q_index i c) # q_run (q_pred p i c) (q_index i c) cs"

fun q_end :: "int \<Rightarrow> int \<Rightarrow> int list \<Rightarrow> int \<times> int" where
  "q_end p i [] = (p, i)"
| "q_end p i (c # cs) = q_end (q_pred p i c) (q_index i c) cs"

fun q_codes :: "int \<Rightarrow> int \<Rightarrow> int list \<Rightarrow> int list" where
  "q_codes p i [] = []"
| "q_codes p i (x # xs) =
     q_code p i x # q_codes (q_pred p i (q_code p i x)) (q_index i (q_code p i x)) xs"

definition is_code :: "int \<Rightarrow> bool" where
  "is_code c = (0 \<le> c \<and> c \<le> 3)"

definition enc_inv :: "encoder \<Rightarrow> bool" where
  "enc_inv s = (valid_q (predictor s) (step_index s) \<and> 0 \<le> sample_in_byte s \<and> sample_in_byte s \<le> 3)"

definition pack4 :: "int \<Rightarrow> int \<Rightarrow> int \<Rightarrow> int \<Rightarrow> int" where
  "pack4 a b c d = ((push_bit 6 a OR push_bit 4 b) OR push_bit 2 c) OR d"

definition unpack1 :: "int \<Rightarrow> int list" where
  "unpack1 b = [drop_bit 6 b AND 3, drop_bit 4 b AND 3, drop_bit 2 b AND 3, b AND 3]"

fun pack :: "int list \<Rightarrow> int list" where
  "pack [] = []"
| "pack [a] = [pack4 a 0 0 0]"
| "pack [a, b] = [pack4 a b 0 0]"
| "pack [a, b, c] = [pack4 a b c 0]"
| "pack (a # b # c # d # rest) = pack4 a b c d # pack rest"

definition enc_out :: "encoder \<Rightarrow> int list" where
  "enc_out s = (if sample_in_byte s > 0 then encoded s @ [current_byte s] else encoded s)"

definition unpack :: "int list \<Rightarrow> int list" where
  "unpack bs = concat (map unpack1 bs)"

section \<open>The format constants\<close>

lemma step_tables_equal: "enc_step_table = dec_step_table"
  by (simp add: enc_step_table_def dec_step_table_def)

lemma index_tables_equal: "enc_index_table = dec_index_table"
  by (simp add: enc_index_table_def dec_index_table_def)

section \<open>Both loops run the pure state machine\<close>

lemma list_index_enc_step:
  "0 \<le> i \<Longrightarrow> i \<le> 15 \<Longrightarrow> list_index enc_step_table i = Inr (q_step i)"
  by (simp add: list_index_def q_step_def enc_step_table_def)

lemma list_index_dec_step:
  "0 \<le> i \<Longrightarrow> i \<le> 15 \<Longrightarrow> list_index dec_step_table i = Inr (q_step i)"
  by (simp add: list_index_def q_step_def enc_step_table_def dec_step_table_def)

lemma list_index_enc_index:
  "is_code c \<Longrightarrow> list_index enc_index_table c = Inr (enc_index_table ! nat c)"
  by (simp add: list_index_def enc_index_table_def is_code_def)

lemma list_index_dec_index:
  "is_code c \<Longrightarrow> list_index dec_index_table c = Inr (enc_index_table ! nat c)"
  by (simp add: list_index_def enc_index_table_def dec_index_table_def is_code_def)

lemma q_code_is_code [simp]: "is_code (q_code p i x)"
  by (simp add: q_code_def is_code_def)

lemma valid_q_next [simp]: "valid_q (q_pred p i c) (q_index i c)"
  by (simp add: valid_q_def q_pred_def q_index_def)

lemma enc_quantize_valid:
  "valid_q (predictor s) (step_index s) \<Longrightarrow>
   enc_quantize s x = Inr (q_step (step_index s), q_code (predictor s) (step_index s) x)"
  by (simp add: enc_quantize_def valid_q_def list_index_enc_step q_code_def Let_def)

lemma enc_update_code:
  "is_code c \<Longrightarrow> enc_update p i (q_step i) c = Inr (q_pred p i c, q_index i c)"
  by (simp add: enc_update_def list_index_enc_index q_pred_def q_index_def Let_def max_def min_def)

lemma dec_update_code:
  "is_code c \<Longrightarrow> dec_update p i (q_step i) c = Inr (q_pred p i c, q_index i c)"
  by (simp add: dec_update_def list_index_dec_index q_pred_def q_index_def Let_def max_def min_def)

lemma enc_pack_ok:
  "0 \<le> sample_in_byte s \<Longrightarrow>  sample_in_byte s \<le> 3 \<Longrightarrow>
   enc_pack s c = Inr (current_byte s OR push_bit (nat (6 - sample_in_byte s * 2)) c)"
  by (simp add: enc_pack_def lshift_def)

lemma encode_sample_valid:
  "valid_q (predictor s) (step_index s) \<Longrightarrow> 0 \<le> sample_in_byte s \<Longrightarrow> sample_in_byte s \<le> 3 \<Longrightarrow>
   encode_sample s x =
     Inr (if sample_in_byte s = 3
          then s\<lparr>predictor := q_pred (predictor s) (step_index s) (q_code (predictor s) (step_index s) x),
                 step_index := q_index (step_index s) (q_code (predictor s) (step_index s) x),
                 encoded := encoded s @
                   [current_byte s OR push_bit (nat (6 - sample_in_byte s * 2)) (q_code (predictor s) (step_index s) x)],
                 current_byte := 0, sample_in_byte := 0\<rparr>
          else s\<lparr>predictor := q_pred (predictor s) (step_index s) (q_code (predictor s) (step_index s) x),
                 step_index := q_index (step_index s) (q_code (predictor s) (step_index s) x),
                 current_byte :=
                   current_byte s OR push_bit (nat (6 - sample_in_byte s * 2)) (q_code (predictor s) (step_index s) x),
                 sample_in_byte := sample_in_byte s + 1\<rparr>)"
  by (simp add: encode_sample_def enc_quantize_valid enc_pack_ok enc_update_code)

lemma encode_sample_inv:
  "enc_inv s \<Longrightarrow> \<exists>s'. encode_sample s x = Inr s' \<and> enc_inv s' \<and>
     predictor s' = q_pred (predictor s) (step_index s) (q_code (predictor s) (step_index s) x) \<and>
     step_index s' = q_index (step_index s) (q_code (predictor s) (step_index s) x)"
  by (simp add: enc_inv_def encode_sample_valid)

lemma encode_trace_run:
  "enc_inv s \<Longrightarrow>
   encode_trace s xs = q_run (predictor s) (step_index s) (q_codes (predictor s) (step_index s) xs)"
proof (induction xs arbitrary: s)
  case Nil
  show ?case by simp
next
  case (Cons x xs)
  from encode_sample_inv [OF Cons.prems, of x] obtain s' where
    s': "encode_sample s x = Inr s'" "enc_inv s'"
      "predictor s' = q_pred (predictor s) (step_index s) (q_code (predictor s) (step_index s) x)"
      "step_index s' = q_index (step_index s) (q_code (predictor s) (step_index s) x)"
    by blast
  from Cons.prems have q: "enc_quantize s x = Inr (q_step (step_index s), q_code (predictor s) (step_index s) x)"
    by (simp add: enc_inv_def enc_quantize_valid)
  show ?case using s' q Cons.IH [OF s'(2)] by simp
qed

lemma encode_loop_total:
  "enc_inv s \<Longrightarrow> \<exists>s'. encode_loop s xs = Inr s' \<and> enc_inv s' \<and>
     (predictor s', step_index s') = q_end (predictor s) (step_index s) (q_codes (predictor s) (step_index s) xs)"
proof (induction xs arbitrary: s)
  case Nil
  then show ?case by simp
next
  case (Cons x xs)
  from encode_sample_inv [OF Cons.prems, of x] obtain s' where
    s': "encode_sample s x = Inr s'" "enc_inv s'"
      "predictor s' = q_pred (predictor s) (step_index s) (q_code (predictor s) (step_index s) x)"
      "step_index s' = q_index (step_index s) (q_code (predictor s) (step_index s) x)"
    by blast
  show ?case using s' Cons.IH [OF s'(2)] by simp
qed

lemma is_code_cases: "is_code c \<Longrightarrow> c = 0 \<or> c = 1 \<or> c = 2 \<or> c = 3"
  by (auto simp: is_code_def)

lemma and_3_is_code [simp]: "is_code (x AND 3)"
proof -
  have "x AND 3 = x AND mask 2" by (simp add: mask_eq_exp_minus_1)
  also have "\<dots> = x mod 4" by (simp add: take_bit_eq_mod flip: take_bit_eq_mask)
  finally show ?thesis by (simp add: is_code_def)
qed

lemma unpack1_pack4:
  assumes "is_code a" "is_code b" "is_code c" "is_code d"
  shows "unpack1 (pack4 a b c d) = [a, b, c, d]"
  using assms [THEN is_code_cases]
  by (elim disjE) (simp_all add: unpack1_def pack4_def)

lemma pack4_byte:
  assumes "is_code a" "is_code b" "is_code c" "is_code d"
  shows "in_byte_range (pack4 a b c d)"
  using assms [THEN is_code_cases]
  by (elim disjE) (simp_all add: in_byte_range_def pack4_def)

lemma encode_four:
  assumes "valid_q (predictor s) (step_index s)" "sample_in_byte s = 0" "current_byte s = 0"
  shows "encode_loop s (a # b # c # d # rest) =
     encode_loop
       (s\<lparr>predictor := fst (q_end (predictor s) (step_index s) (q_codes (predictor s) (step_index s) [a, b, c, d])),
          step_index := snd (q_end (predictor s) (step_index s) (q_codes (predictor s) (step_index s) [a, b, c, d])),
          encoded := encoded s @ pack (q_codes (predictor s) (step_index s) [a, b, c, d]),
          current_byte := 0, sample_in_byte := 0\<rparr>) rest"
  using assms by (simp add: encode_sample_valid pack4_def)

lemma encode_loop_pack:
  "valid_q (predictor s) (step_index s) \<Longrightarrow> sample_in_byte s = 0 \<Longrightarrow> current_byte s = 0 \<Longrightarrow>
   \<exists>s'. encode_loop s xs = Inr s' \<and>
     enc_out s' = encoded s @ pack (q_codes (predictor s) (step_index s) xs)"
proof (induction xs arbitrary: s rule: pack.induct)
  case 1
  then show ?case by (simp add: enc_out_def)
next
  case (2 a)
  then show ?case by (simp add: encode_sample_valid enc_out_def pack4_def)
next
  case (3 a b)
  then show ?case by (simp add: encode_sample_valid enc_out_def pack4_def)
next
  case (4 a b c)
  then show ?case by (simp add: encode_sample_valid enc_out_def pack4_def)
next
  case (5 a b c d rest)
  define s4 where "s4 =
       s\<lparr>predictor := fst (q_end (predictor s) (step_index s) (q_codes (predictor s) (step_index s) [a, b, c, d])),
          step_index := snd (q_end (predictor s) (step_index s) (q_codes (predictor s) (step_index s) [a, b, c, d])),
          encoded := encoded s @ pack (q_codes (predictor s) (step_index s) [a, b, c, d]),
          current_byte := 0, sample_in_byte := 0\<rparr>"
  have s4: "encode_loop s (a # b # c # d # rest) = encode_loop s4 rest"
      "(predictor s4, step_index s4) = q_end (predictor s) (step_index s) (q_codes (predictor s) (step_index s) [a, b, c, d])"
      "sample_in_byte s4 = 0" "current_byte s4 = 0"
      "encoded s4 = encoded s @ pack (q_codes (predictor s) (step_index s) [a, b, c, d])"
    unfolding s4_def using encode_four [OF "5.prems"] by simp_all
  from s4(2) have v4: "valid_q (predictor s4) (step_index s4)"
    by (simp add: prod_eq_iff)
  from "5.IH" [OF v4 s4(3) s4(4)] obtain s' where
    s': "encode_loop s4 rest = Inr s'"
      "enc_out s' = encoded s4 @ pack (q_codes (predictor s4) (step_index s4) rest)"
    by blast
  have run: "encode_loop s (a # b # c # d # rest) = Inr s'"
    by (simp only: s4(1) s'(1))
  have "q_codes (predictor s) (step_index s) (a # b # c # d # rest) =
      q_codes (predictor s) (step_index s) [a, b, c, d] @ q_codes (predictor s4) (step_index s4) rest"
    by (simp add: s4_def)
  then have "pack (q_codes (predictor s) (step_index s) (a # b # c # d # rest)) =
      pack (q_codes (predictor s) (step_index s) [a, b, c, d]) @
      pack (q_codes (predictor s4) (step_index s4) rest)"
    by simp
  then have "enc_out s' = encoded s @ pack (q_codes (predictor s) (step_index s) (a # b # c # d # rest))"
    by (simp only: s'(2) s4(5) append_assoc)
  with run show ?case by blast
qed

lemma length_q_run [simp]: "length (q_run p i cs) = length cs"
  by (induction cs arbitrary: p i) simp_all

lemma length_q_codes [simp]: "length (q_codes p i xs) = length xs"
  by (induction xs arbitrary: p i) simp_all

lemma q_codes_are_codes: "list_all is_code (q_codes p i xs)"
  by (induction xs arbitrary: p i) simp_all

lemma q_run_append:
  "q_run p i (cs @ ds) =
     q_run p i cs @ q_run (fst (q_end p i cs)) (snd (q_end p i cs)) ds"
  by (induction cs arbitrary: p i) simp_all

lemma q_end_append:
  "q_end p i (cs @ ds) = q_end (fst (q_end p i cs)) (snd (q_end p i cs)) ds"
  by (induction cs arbitrary: p i) simp_all

lemma valid_q_end:
  "valid_q p i \<Longrightarrow> valid_q (fst (q_end p i cs)) (snd (q_end p i cs))"
  by (induction cs arbitrary: p i) simp_all

lemma q_run_codes [simp]: "map fst (q_run p i cs) = cs"
  by (induction cs arbitrary: p i) simp_all

lemma q_run_bounded:
  "list_all (\<lambda>(c, p', i'). valid_q p' i') (q_run p i cs)"
  by (induction cs arbitrary: p i) simp_all

lemma q_run_bytes:
  "list_all in_byte_range (map (fst \<circ> snd) (q_run p i cs))"
proof (induction cs arbitrary: p i)
  case Nil
  show ?case by simp
next
  case (Cons c cs)
  have "in_byte_range (q_pred p i c)"
    using valid_q_next [of p i c] by (simp add: valid_q_def in_byte_range_def)
  with Cons show ?case by simp
qed

lemma dec_extract_positions:
  "dec_extract b 0 = Inr (drop_bit 6 b AND 3)"
  "dec_extract b 1 = Inr (drop_bit 4 b AND 3)"
  "dec_extract b 2 = Inr (drop_bit 2 b AND 3)"
  "dec_extract b 3 = Inr (b AND 3)"
  by (simp_all add: dec_extract_def rshift_def)

lemma decode_code_valid:
  "valid_q (predictor d) (step_index d) \<Longrightarrow> dec_extract b k = Inr c \<Longrightarrow> is_code c \<Longrightarrow>
   decode_code d b k =
     Inr (d\<lparr>predictor := q_pred (predictor d) (step_index d) c,
            step_index := q_index (step_index d) c,
            decoded := decoded d @ [q_pred (predictor d) (step_index d) c]\<rparr>)"
  by (simp add: decode_code_def valid_q_def list_index_dec_step dec_update_code)

lemma decode_byte_run:
  assumes "valid_q (predictor d) (step_index d)"
  shows "\<exists>d'. decode_byte d b = Inr d' \<and>
     predictor d' = fst (q_end (predictor d) (step_index d) (unpack1 b)) \<and>
     step_index d' = snd (q_end (predictor d) (step_index d) (unpack1 b)) \<and>
     decoded d' = decoded d @ map (fst \<circ> snd) (q_run (predictor d) (step_index d) (unpack1 b))"
  using assms
  by (simp add: decode_byte_def unpack1_def decode_code_valid dec_extract_positions)

lemma decode_positions_trace_run:
  assumes "valid_q (predictor d) (step_index d)"
  shows "decode_positions_trace d b [0, 1, 2, 3] = q_run (predictor d) (step_index d) (unpack1 b)"
  using assms
  by (simp add: unpack1_def decode_code_valid dec_extract_positions)

lemma decode_loop_run:
  "valid_q (predictor d) (step_index d) \<Longrightarrow>
   \<exists>d'. decode_loop d bs = Inr d' \<and>
     decoded d' = decoded d @ map (fst \<circ> snd) (q_run (predictor d) (step_index d) (unpack bs))"
proof (induction bs arbitrary: d)
  case Nil
  show ?case by (simp add: unpack_def)
next
  case (Cons b bs)
  from decode_byte_run [OF Cons.prems, of b] obtain d1 where
    d1: "decode_byte d b = Inr d1"
      "predictor d1 = fst (q_end (predictor d) (step_index d) (unpack1 b))"
      "step_index d1 = snd (q_end (predictor d) (step_index d) (unpack1 b))"
      "decoded d1 = decoded d @ map (fst \<circ> snd) (q_run (predictor d) (step_index d) (unpack1 b))"
    by blast
  have v1: "valid_q (predictor d1) (step_index d1)"
    using valid_q_end [OF Cons.prems, of "unpack1 b"] by (simp add: d1)
  from Cons.IH [OF v1] obtain d' where
    d': "decode_loop d1 bs = Inr d'"
      "decoded d' = decoded d1 @ map (fst \<circ> snd) (q_run (predictor d1) (step_index d1) (unpack bs))"
    by blast
  have "unpack (b # bs) = unpack1 b @ unpack bs"
    by (simp add: unpack_def)
  then show ?case
    using d1 d' by (simp add: q_run_append)
qed

lemma decode_trace_run:
  "valid_q (predictor d) (step_index d) \<Longrightarrow>
   decode_trace d bs = q_run (predictor d) (step_index d) (unpack bs)"
proof (induction bs arbitrary: d)
  case Nil
  show ?case by (simp add: unpack_def)
next
  case (Cons b bs)
  from decode_byte_run [OF Cons.prems, of b] obtain d1 where
    d1: "decode_byte d b = Inr d1"
      "predictor d1 = fst (q_end (predictor d) (step_index d) (unpack1 b))"
      "step_index d1 = snd (q_end (predictor d) (step_index d) (unpack1 b))"
    by blast
  have v1: "valid_q (predictor d1) (step_index d1)"
    using valid_q_end [OF Cons.prems, of "unpack1 b"] by (simp add: d1)
  have "unpack (b # bs) = unpack1 b @ unpack bs"
    by (simp add: unpack_def)
  then show ?case
    using d1 Cons.IH [OF v1] decode_positions_trace_run [OF Cons.prems, of b]
    by (simp add: q_run_append)
qed

lemma length_unpack [simp]: "length (unpack bs) = 4 * length bs"
  by (induction bs) (simp_all add: unpack_def unpack1_def)

lemma is_code_0 [simp]: "is_code 0"
  by (simp add: is_code_def)

lemma length_pack: "length (pack cs) = (length cs + 3) div 4"
  by (induction cs rule: pack.induct) simp_all

lemma pack_bytes: "list_all is_code cs \<Longrightarrow> list_all in_byte_range (pack cs)"
  by (induction cs rule: pack.induct) (simp_all add: pack4_byte)

lemma unpack_pack:
  "list_all is_code cs \<Longrightarrow>
   unpack (pack cs) = cs @ replicate (4 * length (pack cs) - length cs) 0"
  by (induction cs rule: pack.induct) (simp_all add: unpack_def unpack1_pack4 numeral_eq_Suc)

lemma uint_bytes: "list_all in_byte_range xs \<Longrightarrow> map uint (map word_of_int xs :: byte list) = xs"
  by (induction xs) (simp_all add: in_byte_range_def uint_word_of_int take_bit_int_eq_self)

section \<open>The two functions in closed form\<close>

lemma valid_q_init [simp]: "valid_q 128 0"
  by (simp add: valid_q_def)

lemma encode_loop_init:
  "\<exists>s. encode_loop encoder_init xs = Inr s \<and> enc_inv s \<and>
     enc_out s = pack (q_codes 128 0 xs) \<and>
     (predictor s, step_index s) = q_end 128 0 (q_codes 128 0 xs)"
proof -
  have inv: "enc_inv encoder_init"
    by (simp add: enc_inv_def encoder_init_def)
  from encode_loop_total [OF inv, of xs] obtain s where
    s: "encode_loop encoder_init xs = Inr s" "enc_inv s"
      "(predictor s, step_index s) = q_end 128 0 (q_codes 128 0 xs)"
    by (auto simp: encoder_init_def)
  from encode_loop_pack [of encoder_init xs] s(1)
  have "enc_out s = pack (q_codes 128 0 xs)"
    by (simp add: encoder_init_def)
  with s show ?thesis by blast
qed

lemma encode_eq:
  "encode_2bit_adpcm S = Inr (map word_of_int (pack (q_codes 128 0 (map uint S))))"
proof -
  from encode_loop_init [of "map uint S"] obtain s where
    s: "encode_loop encoder_init (map uint S) = Inr s"
      "enc_out s = pack (q_codes 128 0 (map uint S))"
    by blast
  have "list_all in_byte_range (pack (q_codes 128 0 (map uint S)))"
    by (rule pack_bytes [OF q_codes_are_codes])
  with s show ?thesis
    by (simp add: encode_2bit_adpcm_def encode_finish_def bytes_of_def flip: enc_out_def)
qed

lemma encode_trace_init:
  "encode_trace encoder_init xs = q_run 128 0 (q_codes 128 0 xs)"
  using encode_trace_run [of encoder_init xs]
  by (simp add: enc_inv_def encoder_init_def)

lemma decode_eq:
  "decode_2bit_adpcm bs =
     Inr (map word_of_int (map (fst \<circ> snd) (q_run 128 0 (unpack (map uint bs)))))"
proof -
  from decode_loop_run [of decoder_init "map uint bs"] obtain d where
    d: "decode_loop decoder_init (map uint bs) = Inr d"
      "decoded d = map (fst \<circ> snd) (q_run 128 0 (unpack (map uint bs)))"
    by (auto simp: decoder_init_def)
  then show ?thesis
    using q_run_bytes [of 128 0 "unpack (map uint bs)"]
    by (simp add: decode_2bit_adpcm_def bytes_of_def)
qed

lemma decode_trace_init:
  "decode_trace decoder_init bs = q_run 128 0 (unpack bs)"
  using decode_trace_run [of decoder_init bs]
  by (simp add: decoder_init_def)

lemma take_q_run: "take (length cs) (q_run p i (cs @ ds)) = q_run p i cs"
  by (simp add: q_run_append)

lemma uint_pack_codes:
  "map uint (map word_of_int (pack (q_codes p i xs)) :: byte list) = pack (q_codes p i xs)"
  by (rule uint_bytes [OF pack_bytes [OF q_codes_are_codes]])

lemma unpack_pack_codes:
  "unpack (pack (q_codes p i xs)) =
     q_codes p i xs @ replicate (4 * length (pack (q_codes p i xs)) - length xs) 0"
  using unpack_pack [OF q_codes_are_codes, of p i xs] by simp

section \<open>Bytes, bit fields and steps\<close>

lemma take_bit_uint_byte: "take_bit 8 (uint (w :: byte)) = uint w"
  using uint_lt2p [of w] by (simp add: take_bit_int_eq_self)

lemma uint_drop_bit_byte: "uint (drop_bit n (w :: byte)) = drop_bit n (uint w)"
  by (simp add: unsigned_drop_bit_eq take_bit_uint_byte)

lemma fields_unpack:
  "concat (map (\<lambda>w. [uint (drop_bit 6 w AND 3), uint (drop_bit 4 w AND 3),
                       uint (drop_bit 2 w AND 3), uint (w AND 3)]) bs) =
     unpack (map uint (bs :: byte list))"
  by (induction bs)
    (simp_all add: unpack_def unpack1_def unsigned_and_eq unsigned_drop_bit_eq take_bit_uint_byte)

lemma q_step_pos: "0 \<le> i \<Longrightarrow> i \<le> 15 \<Longrightarrow> 0 < q_step i"
proof -
  assume i: "0 \<le> i" "i \<le> 15"
  have "list_all (\<lambda>x. 0 < x) enc_step_table"
    by (simp add: enc_step_table_def)
  moreover have "nat i < length enc_step_table"
    using i by (simp add: enc_step_table_def)
  ultimately show ?thesis
    by (simp add: q_step_def list_all_length)
qed

lemma q_code_zero_diff: "0 \<le> i \<Longrightarrow> i \<le> 15 \<Longrightarrow> q_code p i p = 1"
  using q_step_pos [of i] by (simp add: q_code_def)

lemma q_pred_code_1:
  "valid_q p i \<Longrightarrow> q_pred p i 1 = min 255 (p + q_step i)"
  using q_step_pos [of i] by (simp add: q_pred_def valid_q_def)

lemma decode_encode_codes:
  "unpack (map uint (map word_of_int (pack (q_codes p i xs)) :: byte list)) =
     q_codes p i xs @ replicate (4 * length (pack (q_codes p i xs)) - length xs) 0"
  by (simp only: uint_pack_codes unpack_pack_codes)

lemma updates_equal: "enc_update pred idx step code = dec_update pred idx step code"
  by (simp add: enc_update_def dec_update_def index_tables_equal)

lemma pack4_top:
  assumes "is_code a" "is_code b" "is_code c" "is_code d"
  shows "drop_bit 6 (pack4 a b c d) = a"
  using assms [THEN is_code_cases]
  by (elim disjE) (simp_all add: pack4_def)

lemma uint_pack4:
  assumes "is_code a" "is_code b" "is_code c" "is_code d"
  shows "uint (word_of_int (pack4 a b c d) :: byte) = pack4 a b c d"
  using pack4_byte [OF assms]
  by (simp add: uint_word_of_int in_byte_range_def)

lemma decode_trace_codes:
  "map fst (decode_trace decoder_init (map uint bs)) =
     concat (map (\<lambda>w. [uint (drop_bit 6 w AND 3), uint (drop_bit 4 w AND 3),
                         uint (drop_bit 2 w AND 3), uint (w AND 3)]) (bs :: byte list))"
  by (simp only: decode_trace_init q_run_codes fields_unpack)

lemma encoded_fields:
  "concat (map (\<lambda>w. [uint (drop_bit 6 w AND 3), uint (drop_bit 4 w AND 3),
                       uint (drop_bit 2 w AND 3), uint (w AND 3)])
     (map word_of_int (pack (q_codes 128 0 xs)) :: byte list)) =
   q_codes 128 0 xs @ replicate (4 * length (pack (q_codes 128 0 xs)) - length xs) 0"
  by (simp only: fields_unpack decode_encode_codes)

lemma decode_output_trace:
  "decode_2bit_adpcm bs =
     Inr (map (\<lambda>(code, p, i). word_of_int p) (decode_trace decoder_init (map uint bs)))"
  by (simp add: decode_eq decode_trace_init case_prod_beta comp_def)

section \<open>The claims\<close>

text \<open>
  C1. The claim: for every finite sequence \<open>S\<close> of 8-bit samples, decoding the encoder's
  output with the original sample count reproduces \<open>S\<close> exactly. The decoder takes no sample
  count; keeping the first \<open>len(S)\<close> decoded samples stands for it. The codec is lossy: each
  sample is replaced by the predictor the chosen delta leads to. The single sample 128 is
  encoded as the byte \<open>0x40\<close> (code 1), which decodes to 130, 128, 126, 124; the first decoded
  sample is 130, not 128.
\<close>

theorem roundtrip_exact_counterexample:
  "encode_2bit_adpcm [128] = Inr [0x40] \<and>
   decode_2bit_adpcm [0x40] = Inr [130, 128, 126, 124] \<and>
   take (length [128 :: byte]) [130, 128, 126, 124 :: byte] \<noteq> [128]"
  by code_simp

text \<open>
  C1 as amended: for every finite sequence \<open>S\<close> of 8-bit samples (the empty one, a single
  sample and lengths that are no multiple of 4 included), the encoder returns bytes, the decoder
  returns samples for them, and the first \<open>len(S)\<close> decoded samples are exactly the clamped
  new predictors the encoder computed, one per sample. The round trip gives back \<open>S\<close> exactly
  when \<open>S\<close> equals that sequence of predictors.
\<close>

theorem roundtrip_reconstruction:
  "\<exists>bs out. encode_2bit_adpcm S = Inr bs \<and> decode_2bit_adpcm bs = Inr out \<and>
     length (encode_trace encoder_init (map uint S)) = length S \<and>
     take (length S) out =
       map (\<lambda>(code, p, i). word_of_int p) (encode_trace encoder_init (map uint S)) \<and>
     (take (length S) out = S) =
       (map (\<lambda>(code, p, i). word_of_int p) (encode_trace encoder_init (map uint S)) = S)"
proof -
  let ?cs = "q_codes 128 0 (map uint S)"
  let ?bs = "map word_of_int (pack ?cs) :: byte list"
  let ?out = "map word_of_int (map (fst \<circ> snd) (q_run 128 0 (unpack (map uint ?bs)))) :: byte list"
  have len: "length ?cs = length S"
    by simp
  have "take (length S) ?out =
      map word_of_int (map (fst \<circ> snd) (take (length ?cs)
        (q_run 128 0 (?cs @ replicate (4 * length (pack ?cs) - length (map uint S)) 0))))"
    by (simp only: decode_encode_codes take_map len)
  also have "\<dots> = map word_of_int (map (fst \<circ> snd) (q_run 128 0 ?cs))"
    by (simp only: take_q_run)
  also have "\<dots> = map (\<lambda>(code, p, i). word_of_int p) (encode_trace encoder_init (map uint S))"
    by (simp add: encode_trace_init case_prod_beta comp_def)
  finally have t: "take (length S) ?out =
      map (\<lambda>(code, p, i). word_of_int p) (encode_trace encoder_init (map uint S))" .
  have "encode_2bit_adpcm S = Inr ?bs"
    by (rule encode_eq)
  moreover have "decode_2bit_adpcm ?bs = Inr ?out"
    by (rule decode_eq)
  moreover have "length (encode_trace encoder_init (map uint S)) = length S"
    by (simp add: encode_trace_init)
  ultimately show ?thesis
    using t by (intro exI [of _ ?bs] exI [of _ ?out]) (simp only: simp_thms)
qed

text \<open>
  C2. Encoder and decoder implement the same state transition: their update code computes the
  same function of predictor, step index, step and code, their step tables answer every lookup
  alike, and both start from the same state. For every sample sequence \<open>S\<close>, the decoder run
  on \<open>encode(S)\<close> goes through the encoder's trajectory of code, predictor and step index for
  its first \<open>len(S)\<close> iterations, and the first \<open>len(S)\<close> decoded samples are the encoder's
  clamped new predictors.
\<close>

theorem encoder_decoder_same_trajectory:
  "(\<forall>pred idx step code. enc_update pred idx step code = dec_update pred idx step code) \<and>
   (\<forall>idx. list_index enc_step_table idx = list_index dec_step_table idx) \<and>
   predictor encoder_init = predictor decoder_init \<and>
   step_index encoder_init = step_index decoder_init \<and>
   (\<exists>bs out. encode_2bit_adpcm S = Inr bs \<and> decode_2bit_adpcm bs = Inr out \<and>
      length (encode_trace encoder_init (map uint S)) = length S \<and>
      take (length S) (decode_trace decoder_init (map uint bs)) =
        encode_trace encoder_init (map uint S) \<and>
      map (\<lambda>(code, p, i). word_of_int p) (encode_trace encoder_init (map uint S)) =
        take (length S) out)"
proof -
  let ?cs = "q_codes 128 0 (map uint S)"
  let ?bs = "map word_of_int (pack ?cs) :: byte list"
  let ?tr = "q_run 128 0 (unpack (map uint ?bs))"
  let ?out = "map word_of_int (map (fst \<circ> snd) ?tr) :: byte list"
  have len: "length ?cs = length S"
    by simp
  have "take (length S) ?tr =
      take (length ?cs) (q_run 128 0 (?cs @ replicate (4 * length (pack ?cs) - length (map uint S)) 0))"
    by (simp only: decode_encode_codes len)
  then have tr: "take (length S) ?tr = q_run 128 0 ?cs"
    by (simp only: take_q_run)
  have "map (\<lambda>(code, p, i). word_of_int p) (q_run 128 0 ?cs) =
      map word_of_int (map (fst \<circ> snd) (q_run 128 0 ?cs))"
    by (simp add: case_prod_beta comp_def)
  also have "\<dots> = map word_of_int (map (fst \<circ> snd) (take (length S) ?tr))"
    by (simp only: tr)
  also have "\<dots> = take (length S) ?out"
    by (simp only: take_map)
  finally have out:
    "map (\<lambda>(code, p, i). word_of_int p) (q_run 128 0 ?cs) = take (length S) ?out" .
  have run: "encode_2bit_adpcm S = Inr ?bs \<and> decode_2bit_adpcm ?bs = Inr ?out \<and>
      length (encode_trace encoder_init (map uint S)) = length S \<and>
      take (length S) (decode_trace decoder_init (map uint ?bs)) =
        encode_trace encoder_init (map uint S) \<and>
      map (\<lambda>(code, p, i). word_of_int p) (encode_trace encoder_init (map uint S)) =
        take (length S) ?out"
    using tr out by (simp only: encode_eq decode_eq encode_trace_init decode_trace_init len length_q_run simp_thms)
  have init: "predictor encoder_init = predictor decoder_init \<and>
      step_index encoder_init = step_index decoder_init"
    by (simp add: encoder_init_def decoder_init_def)
  from run have "\<exists>bs out. encode_2bit_adpcm S = Inr bs \<and> decode_2bit_adpcm bs = Inr out \<and>
      length (encode_trace encoder_init (map uint S)) = length S \<and>
      take (length S) (decode_trace decoder_init (map uint bs)) =
        encode_trace encoder_init (map uint S) \<and>
      map (\<lambda>(code, p, i). word_of_int p) (encode_trace encoder_init (map uint S)) =
        take (length S) out"
    by blast
  with init show ?thesis
    by (simp only: updates_equal step_tables_equal simp_thms)
qed

text \<open>
  C3. The claim: encoding the silence sequence \<open>[128,128,128,128]\<close> yields the single byte
  \<open>0x00\<close>, with the step index staying 0 and the predictor staying 128. The encoder has no
  code for a zero delta: at a difference of 0 it chooses code 1, then code 0 to come back. So
  the output is not \<open>0x00\<close>.
\<close>

theorem silence_vector_counterexample:
  "encode_2bit_adpcm [128, 128, 128, 128] \<noteq> Inr [0x00]"
  by code_simp

text \<open>
  C3 as amended: encoding \<open>[128,128,128,128]\<close> yields the single byte \<open>0x44\<close> (the codes
  1, 0, 1, 0); the step index stays 0 and the predictor alternates 130, 128, 130, 128.
\<close>

theorem silence_vector:
  "encode_2bit_adpcm [128, 128, 128, 128] = Inr [0x44] \<and>
   encode_trace encoder_init (map uint [128, 128, 128, 128 :: byte]) =
     [(1, 130, 0), (0, 128, 0), (1, 130, 0), (0, 128, 0)]"
  by code_simp

text \<open>
  C4. Bounded state: both loops start from predictor 128 and step index 0; for every sample
  sequence given to the encoder and every byte sequence given to the decoder, every iteration
  runs (one per sample, four per byte) and leaves the predictor in \<open>[0,255]\<close> and the step
  index in \<open>[0,15]\<close>. It holds for arbitrary integers as samples or byte values, the 8-bit
  ones among them.
\<close>

theorem bounded_state:
  "predictor encoder_init = 128 \<and> step_index encoder_init = 0 \<and>
   predictor decoder_init = 128 \<and> step_index decoder_init = 0 \<and>
   length (encode_trace encoder_init samples) = length samples \<and>
   list_all (\<lambda>(code, p, i). 0 \<le> p \<and> p \<le> 255 \<and> 0 \<le> i \<and> i \<le> 15)
     (encode_trace encoder_init samples) \<and>
   length (decode_trace decoder_init byte_vals) = 4 * length byte_vals \<and>
   list_all (\<lambda>(code, p, i). 0 \<le> p \<and> p \<le> 255 \<and> 0 \<le> i \<and> i \<le> 15)
     (decode_trace decoder_init byte_vals)"
proof -
  have b: "(\<lambda>(code, p, i). 0 \<le> p \<and> p \<le> 255 \<and> 0 \<le> i \<and> i \<le> 15) =
      (\<lambda>(c :: int, p, i). valid_q p i)"
    by (simp add: valid_q_def)
  have "predictor encoder_init = 128 \<and> step_index encoder_init = 0 \<and>
      predictor decoder_init = 128 \<and> step_index decoder_init = 0"
    by (simp add: encoder_init_def decoder_init_def)
  then show ?thesis
    unfolding encode_trace_init decode_trace_init b
    by (simp add: q_run_bounded)
qed

text \<open>
  C5. The threshold rule. In the state \<open>s\<close> the encoder reaches after any samples, the step
  looked up is positive (so dividing it by 2 rounds the same way towards zero and downwards),
  and the code chosen for the next sample is 2 iff \<open>diff < -step - step/2\<close>, 0 iff
  \<open>-step - step/2 \<le> diff < 0\<close>, 1 iff \<open>0 \<le> diff < step + step/2\<close> and 3 iff
  \<open>diff \<ge> step + step/2\<close>, where \<open>diff = sample - predictor\<close>.
\<close>

theorem threshold_rule:
  "\<exists>s step code. encode_loop encoder_init samples = Inr s \<and>
     list_index enc_step_table (step_index s) = Inr step \<and>
     0 < step \<and>
     enc_quantize s sample = Inr (step, code) \<and>
     (code = 2) = (sample - predictor s < - step - step div 2) \<and>
     (code = 0) = (- step - step div 2 \<le> sample - predictor s \<and> sample - predictor s < 0) \<and>
     (code = 1) = (0 \<le> sample - predictor s \<and> sample - predictor s < step + step div 2) \<and>
     (code = 3) = (step + step div 2 \<le> sample - predictor s)"
proof -
  from encode_loop_init [of samples] obtain s where
    s: "encode_loop encoder_init samples = Inr s" "enc_inv s"
    by blast
  from s(2) have v: "valid_q (predictor s) (step_index s)"
    by (simp add: enc_inv_def)
  then have i: "0 \<le> step_index s" "step_index s \<le> 15"
    by (simp_all add: valid_q_def)
  let ?step = "q_step (step_index s)"
  let ?code = "q_code (predictor s) (step_index s) sample"
  have pos: "0 < ?step"
    using i by (rule q_step_pos)
  have "list_index enc_step_table (step_index s) = Inr ?step"
    using i by (rule list_index_enc_step)
  moreover have "enc_quantize s sample = Inr (?step, ?code)"
    using v by (rule enc_quantize_valid)
  moreover have "(?code = 2) = (sample - predictor s < - ?step - ?step div 2)"
    using pos by (simp add: q_code_def)
  moreover have "(?code = 0) =
      (- ?step - ?step div 2 \<le> sample - predictor s \<and> sample - predictor s < 0)"
    using pos by (auto simp: q_code_def)
  moreover have "(?code = 1) =
      (0 \<le> sample - predictor s \<and> sample - predictor s < ?step + ?step div 2)"
    using pos by (auto simp: q_code_def)
  moreover have "(?code = 3) = (?step + ?step div 2 \<le> sample - predictor s)"
    using pos by (auto simp: q_code_def)
  ultimately show ?thesis
    using s(1) pos by blast
qed

text \<open>
  C6. Packing order. Reading every output byte as its four 2-bit fields, bits [7:6] first, then
  [5:4], [3:2] and [1:0], gives the codes the encoder chose, in the order of the samples. The
  decoder extracts its codes from each byte in that same order: for the encoder's output and
  for any bytes at all, what \<open>decode_2bit_adpcm\<close> returns are the predictors of its
  iterations, and the codes of these iterations are the fields of the bytes, bits [7:6] first.
  The byte \<open>0x1B\<close>, whose fields are 0, 1, 2, 3, decodes to 126, 128, 124, 132.
  For four samples \<open>a, b, c, d\<close> the output is one byte whose top two bits are the code
  chosen for \<open>a\<close> and whose bottom two bits are the code chosen for \<open>d\<close>.
\<close>

theorem packing_order:
  "(\<exists>bs out. encode_2bit_adpcm S = Inr bs \<and>
      take (length S)
        (concat (map (\<lambda>w. [uint (drop_bit 6 w AND 3), uint (drop_bit 4 w AND 3),
                            uint (drop_bit 2 w AND 3), uint (w AND 3)]) bs)) =
        map fst (encode_trace encoder_init (map uint S)) \<and>
      map fst (decode_trace decoder_init (map uint bs)) =
        (concat (map (\<lambda>w. [uint (drop_bit 6 w AND 3), uint (drop_bit 4 w AND 3),
                            uint (drop_bit 2 w AND 3), uint (w AND 3)]) bs)) \<and>
      decode_2bit_adpcm bs = Inr out \<and>
      out = map (\<lambda>(code, p, i). word_of_int p) (decode_trace decoder_init (map uint bs))) \<and>
   (\<exists>out. decode_2bit_adpcm compressed_data = Inr out \<and>
      out = map (\<lambda>(code, p, i). word_of_int p)
              (decode_trace decoder_init (map uint compressed_data)) \<and>
      map fst (decode_trace decoder_init (map uint compressed_data)) =
        (concat (map (\<lambda>w. [uint (drop_bit 6 w AND 3), uint (drop_bit 4 w AND 3),
                            uint (drop_bit 2 w AND 3), uint (w AND 3)]) compressed_data))) \<and>
   decode_2bit_adpcm [0x1B] = Inr [126, 128, 124, 132] \<and>
   (\<exists>w code_a code_b code_c code_d.
      encode_2bit_adpcm [a, b, c, d] = Inr [w] \<and>
      map fst (encode_trace encoder_init (map uint [a, b, c, d])) = [code_a, code_b, code_c, code_d] \<and>
      uint (drop_bit 6 w) = code_a \<and> uint (w AND 3) = code_d)"
proof (intro conjI)
  let ?cs = "q_codes 128 0 (map uint S)"
  let ?bs = "map word_of_int (pack ?cs) :: byte list"
  let ?out = "map (\<lambda>(code, p, i). word_of_int p) (decode_trace decoder_init (map uint ?bs)) :: byte list"
  have "take (length S)
        (concat (map (\<lambda>w. [uint (drop_bit 6 w AND 3), uint (drop_bit 4 w AND 3),
                            uint (drop_bit 2 w AND 3), uint (w AND 3)]) ?bs)) = ?cs"
    unfolding encoded_fields by simp
  then have enc: "encode_2bit_adpcm S = Inr ?bs \<and>
      take (length S)
        (concat (map (\<lambda>w. [uint (drop_bit 6 w AND 3), uint (drop_bit 4 w AND 3),
                            uint (drop_bit 2 w AND 3), uint (w AND 3)]) ?bs)) =
        map fst (encode_trace encoder_init (map uint S)) \<and>
      map fst (decode_trace decoder_init (map uint ?bs)) =
        (concat (map (\<lambda>w. [uint (drop_bit 6 w AND 3), uint (drop_bit 4 w AND 3),
                            uint (drop_bit 2 w AND 3), uint (w AND 3)]) ?bs))"
    by (simp only: encode_eq encode_trace_init q_run_codes decode_trace_codes simp_thms)
  have dec: "decode_2bit_adpcm ?bs = Inr ?out"
    by (rule decode_output_trace)
  from enc dec have "encode_2bit_adpcm S = Inr ?bs \<and>
      take (length S)
        (concat (map (\<lambda>w. [uint (drop_bit 6 w AND 3), uint (drop_bit 4 w AND 3),
                            uint (drop_bit 2 w AND 3), uint (w AND 3)]) ?bs)) =
        map fst (encode_trace encoder_init (map uint S)) \<and>
      map fst (decode_trace decoder_init (map uint ?bs)) =
        (concat (map (\<lambda>w. [uint (drop_bit 6 w AND 3), uint (drop_bit 4 w AND 3),
                            uint (drop_bit 2 w AND 3), uint (w AND 3)]) ?bs)) \<and>
      decode_2bit_adpcm ?bs = Inr ?out \<and>
      ?out = map (\<lambda>(code, p, i). word_of_int p) (decode_trace decoder_init (map uint ?bs))"
    by (simp only: simp_thms)
  then show "\<exists>bs out. encode_2bit_adpcm S = Inr bs \<and>
      take (length S)
        (concat (map (\<lambda>w. [uint (drop_bit 6 w AND 3), uint (drop_bit 4 w AND 3),
                            uint (drop_bit 2 w AND 3), uint (w AND 3)]) bs)) =
        map fst (encode_trace encoder_init (map uint S)) \<and>
      map fst (decode_trace decoder_init (map uint bs)) =
        (concat (map (\<lambda>w. [uint (drop_bit 6 w AND 3), uint (drop_bit 4 w AND 3),
                            uint (drop_bit 2 w AND 3), uint (w AND 3)]) bs)) \<and>
      decode_2bit_adpcm bs = Inr out \<and>
      out = map (\<lambda>(code, p, i). word_of_int p) (decode_trace decoder_init (map uint bs))"
    by (intro exI [of _ ?bs] exI [of _ ?out])
next
  let ?out = "map (\<lambda>(code, p, i). word_of_int p)
      (decode_trace decoder_init (map uint compressed_data)) :: byte list"
  have "decode_2bit_adpcm compressed_data = Inr ?out"
    by (rule decode_output_trace)
  then have "decode_2bit_adpcm compressed_data = Inr ?out \<and>
      ?out = map (\<lambda>(code, p, i). word_of_int p)
              (decode_trace decoder_init (map uint compressed_data)) \<and>
      map fst (decode_trace decoder_init (map uint compressed_data)) =
        (concat (map (\<lambda>w. [uint (drop_bit 6 w AND 3), uint (drop_bit 4 w AND 3),
                            uint (drop_bit 2 w AND 3), uint (w AND 3)]) compressed_data))"
    using decode_trace_codes [of compressed_data] by (simp only: simp_thms)
  then show "\<exists>out. decode_2bit_adpcm compressed_data = Inr out \<and>
      out = map (\<lambda>(code, p, i). word_of_int p)
              (decode_trace decoder_init (map uint compressed_data)) \<and>
      map fst (decode_trace decoder_init (map uint compressed_data)) =
        (concat (map (\<lambda>w. [uint (drop_bit 6 w AND 3), uint (drop_bit 4 w AND 3),
                            uint (drop_bit 2 w AND 3), uint (w AND 3)]) compressed_data))"
    by (intro exI [of _ ?out])
next
  show "decode_2bit_adpcm [0x1B] = Inr [126, 128, 124, 132]"
    by code_simp
next
  obtain ca cb cc cd where cs: "q_codes 128 0 (map uint [a, b, c, d]) = [ca, cb, cc, cd]"
    by simp
  from q_codes_are_codes [of 128 0 "map uint [a, b, c, d]", unfolded cs]
  have codes: "is_code ca" "is_code cb" "is_code cc" "is_code cd"
    by simp_all
  let ?w = "word_of_int (pack4 ca cb cc cd) :: byte"
  have u: "uint ?w = pack4 ca cb cc cd"
    by (rule uint_pack4 [OF codes])
  have enc: "encode_2bit_adpcm [a, b, c, d] = Inr [?w]"
    unfolding encode_eq cs by simp
  have tr: "map fst (encode_trace encoder_init (map uint [a, b, c, d])) = [ca, cb, cc, cd]"
    unfolding encode_trace_init q_run_codes cs by simp
  have top: "uint (drop_bit 6 ?w) = ca"
    by (simp only: uint_drop_bit_byte u pack4_top [OF codes])
  have "unpack1 (uint ?w) = [ca, cb, cc, cd]"
    using unpack1_pack4 [OF codes] by (simp only: u)
  then have bot: "uint (?w AND 3) = cd"
    by (simp add: unpack1_def unsigned_and_eq)
  show "\<exists>w code_a code_b code_c code_d.
      encode_2bit_adpcm [a, b, c, d] = Inr [w] \<and>
      map fst (encode_trace encoder_init (map uint [a, b, c, d])) = [code_a, code_b, code_c, code_d] \<and>
      uint (drop_bit 6 w) = code_a \<and> uint (w AND 3) = code_d"
    by (intro exI conjI) (rule enc, rule tr, rule top, rule bot)
qed

text \<open>
  C7. The encoder is total: the empty input yields the empty output, and \<open>n\<close> samples yield
  exactly \<open>ceil(n/4)\<close> bytes, that is \<open>(n + 3) div 4\<close>, the number \<open>k\<close> with
  \<open>n \<le> 4k < n + 4\<close>. The 2-bit fields of the output after the first \<open>n\<close> (the unused
  low-order pairs of a partially filled final byte) are zero.
\<close>

theorem encoder_total_length:
  "encode_2bit_adpcm [] = Inr [] \<and>
   (\<exists>bs. encode_2bit_adpcm S = Inr bs \<and>
      length bs = (length S + 3) div 4 \<and>
      length S \<le> 4 * length bs \<and> 4 * length bs < length S + 4 \<and>
      drop (length S)
        (concat (map (\<lambda>w. [uint (drop_bit 6 w AND 3), uint (drop_bit 4 w AND 3),
                            uint (drop_bit 2 w AND 3), uint (w AND 3)]) bs)) =
        replicate (4 * length bs - length S) 0)"
proof
  show "encode_2bit_adpcm [] = Inr []"
    by (simp add: encode_eq)
next
  let ?cs = "q_codes 128 0 (map uint S)"
  let ?bs = "map word_of_int (pack ?cs) :: byte list"
  have len: "length ?bs = (length S + 3) div 4"
    by (simp add: length_pack)
  have "drop (length S)
        (concat (map (\<lambda>w. [uint (drop_bit 6 w AND 3), uint (drop_bit 4 w AND 3),
                            uint (drop_bit 2 w AND 3), uint (w AND 3)]) ?bs)) =
        replicate (4 * length ?bs - length S) 0"
    unfolding encoded_fields by simp
  moreover have "encode_2bit_adpcm S = Inr ?bs"
    by (rule encode_eq)
  moreover have "length S \<le> 4 * length ?bs \<and> 4 * length ?bs < length S + 4"
    unfolding len by arith
  ultimately show "\<exists>bs. encode_2bit_adpcm S = Inr bs \<and>
      length bs = (length S + 3) div 4 \<and>
      length S \<le> 4 * length bs \<and> 4 * length bs < length S + 4 \<and>
      drop (length S)
        (concat (map (\<lambda>w. [uint (drop_bit 6 w AND 3), uint (drop_bit 4 w AND 3),
                            uint (drop_bit 2 w AND 3), uint (w AND 3)]) bs)) =
        replicate (4 * length bs - length S) 0"
    using len by blast
qed

text \<open>
  C8. The decoder returns exactly \<open>4 * len(b)\<close> samples for every byte sequence \<open>b\<close>: one
  per iteration, the iterations taking the 2-bit fields of every byte in order. It takes no
  sample count and truncates nothing: on the encoder's output for \<open>n\<close> samples it returns
  \<open>4 * ceil(n/4)\<close> samples, more than \<open>n\<close> exactly when \<open>n\<close> is no multiple of 4, the
  trailing ones decoded from the zero codes of the padding.
\<close>

theorem decoder_output_length:
  "(\<exists>out. decode_2bit_adpcm bs = Inr out \<and> length out = 4 * length bs \<and>
      out = map (\<lambda>(code, p, i). word_of_int p) (decode_trace decoder_init (map uint bs)) \<and>
      map fst (decode_trace decoder_init (map uint bs)) =
        concat (map (\<lambda>w. [uint (drop_bit 6 w AND 3), uint (drop_bit 4 w AND 3),
                            uint (drop_bit 2 w AND 3), uint (w AND 3)]) bs)) \<and>
   (\<exists>enc out. encode_2bit_adpcm S = Inr enc \<and> decode_2bit_adpcm enc = Inr out \<and>
      length out = 4 * ((length S + 3) div 4) \<and>
      (length S < length out) = (length S mod 4 \<noteq> 0) \<and>
      drop (length S) (map fst (decode_trace decoder_init (map uint enc))) =
        replicate (length out - length S) 0)"
proof
  let ?tr = "q_run 128 0 (unpack (map uint bs))"
  let ?out = "map word_of_int (map (fst \<circ> snd) ?tr) :: byte list"
  have "decode_2bit_adpcm bs = Inr ?out"
    by (rule decode_eq)
  moreover have "length ?out = 4 * length bs"
    by simp
  moreover have "?out = map (\<lambda>(code, p, i). word_of_int p) (decode_trace decoder_init (map uint bs))"
    by (simp add: decode_trace_init case_prod_beta comp_def)
  ultimately show "\<exists>out. decode_2bit_adpcm bs = Inr out \<and> length out = 4 * length bs \<and>
      out = map (\<lambda>(code, p, i). word_of_int p) (decode_trace decoder_init (map uint bs)) \<and>
      map fst (decode_trace decoder_init (map uint bs)) =
        concat (map (\<lambda>w. [uint (drop_bit 6 w AND 3), uint (drop_bit 4 w AND 3),
                            uint (drop_bit 2 w AND 3), uint (w AND 3)]) bs)"
    using decode_trace_codes [of bs] by blast
next
  let ?cs = "q_codes 128 0 (map uint S)"
  let ?enc = "map word_of_int (pack ?cs) :: byte list"
  let ?out = "map word_of_int (map (fst \<circ> snd) (q_run 128 0 (unpack (map uint ?enc)))) :: byte list"
  have len: "length ?out = 4 * ((length S + 3) div 4)"
    by (simp add: length_pack)
  have "drop (length S) (map fst (decode_trace decoder_init (map uint ?enc))) =
      replicate (4 * length ?enc - length S) 0"
    unfolding decode_trace_codes encoded_fields by simp
  then have pad: "drop (length S) (map fst (decode_trace decoder_init (map uint ?enc))) =
      replicate (length ?out - length S) 0"
    by simp
  have "(length S < length ?out) = (length S mod 4 \<noteq> 0)"
    unfolding len by arith
  moreover have "encode_2bit_adpcm S = Inr ?enc"
    by (rule encode_eq)
  moreover have "decode_2bit_adpcm ?enc = Inr ?out"
    by (rule decode_eq)
  ultimately show "\<exists>enc out. encode_2bit_adpcm S = Inr enc \<and> decode_2bit_adpcm enc = Inr out \<and>
      length out = 4 * ((length S + 3) div 4) \<and>
      (length S < length out) = (length S mod 4 \<noteq> 0) \<and>
      drop (length S) (map fst (decode_trace decoder_init (map uint enc))) =
        replicate (length out - length S) 0"
    using len pad by blast
qed

text \<open>
  C9. Encoder and decoder use the same format constants: both step tables are
  \<open>[2,3,4,5,6,8,10,13,16,20,25,32,40,50,63,80]\<close>, the table is monotonically non-decreasing
  (\<open>StepTable[i] \<le> StepTable[j]\<close> for all \<open>i < j\<close>), and both index-adjustment tables are
  \<open>[-1,-1,2,2]\<close> for the codes 0 to 3.
\<close>

theorem format_constants_identical:
  "enc_step_table = [2, 3, 4, 5, 6, 8, 10, 13, 16, 20, 25, 32, 40, 50, 63, 80] \<and>
   dec_step_table = enc_step_table \<and>
   (\<forall>i j. i < j \<and> j < length enc_step_table \<longrightarrow> enc_step_table ! i \<le> enc_step_table ! j) \<and>
   enc_index_table = [-1, -1, 2, 2] \<and>
   dec_index_table = enc_index_table"
proof -
  have "sorted enc_step_table"
    by (simp add: enc_step_table_def)
  then have "\<forall>i j. i < j \<and> j < length enc_step_table \<longrightarrow> enc_step_table ! i \<le> enc_step_table ! j"
    by (simp add: sorted_iff_nth_mono_less)
  then show ?thesis
    by (simp add: enc_step_table_def dec_step_table_def enc_index_table_def dec_index_table_def)
qed

text \<open>C9 at the two ends of the table: the first step is 2, the last is 80, and the first
  is not above the last.\<close>

theorem format_constants_identical_witness:
  "(0::nat) < 15 \<and> 15 < length enc_step_table \<and> enc_step_table ! 0 = 2 \<and>
   enc_step_table ! 15 = 80 \<and> enc_step_table ! 0 \<le> enc_step_table ! 15"
proof -
  have len: "(0::nat) < 15 \<and> 15 < length enc_step_table"
    by (simp add: enc_step_table_def)
  from format_constants_identical have
    "\<forall>i j. i < j \<and> j < length enc_step_table \<longrightarrow> enc_step_table ! i \<le> enc_step_table ! j"
    by blast
  with len have "enc_step_table ! 0 \<le> enc_step_table ! 15"
    by blast
  with len show ?thesis
    by (simp add: enc_step_table_def)
qed

text \<open>
  C10. The claim: in every reachable encoder state a sample equal to the predictor gets code 1,
  so the predictor moves by the step (clamped to 255) rather than staying put, and an exactly
  tracked signal is perturbed at every sample. The clamp makes an exception: seven samples of
  255 bring the encoder to predictor 255 and step index 11; there a sample of 255 equals the
  predictor, gets code 1 with step 32, and the predictor stays at 255.
\<close>

theorem no_zero_delta_counterexample:
  "encode_loop encoder_init [255, 255, 255, 255, 255, 255, 255] =
     Inr \<lparr>predictor = 255, step_index = 11, encoded = [255], current_byte = 244,
          sample_in_byte = 3\<rparr> \<and>
   enc_quantize \<lparr>predictor = 255, step_index = 11, encoded = [255], current_byte = 244,
                 sample_in_byte = 3\<rparr> 255 = Inr (32, 1) \<and>
   encode_sample \<lparr>predictor = 255, step_index = 11, encoded = [255], current_byte = 244,
                  sample_in_byte = 3\<rparr> 255 =
     Inr \<lparr>predictor = 255, step_index = 10, encoded = [255, 245], current_byte = 0,
          sample_in_byte = 0\<rparr>"
  by code_simp

text \<open>
  C10 as amended: the codec has no zero-delta code. In every reachable encoder state, a sample
  equal to the predictor gets code 1 and the predictor becomes
  \<open>min(255, predictor + StepTable[step_index])\<close>, with a positive step: it moves up, and stays
  put exactly when it is already saturated at 255.
\<close>

theorem no_zero_delta_code:
  "\<exists>s step s'. encode_loop encoder_init samples = Inr s \<and>
     list_index enc_step_table (step_index s) = Inr step \<and>
     0 < step \<and>
     enc_quantize s (predictor s) = Inr (step, 1) \<and>
     encode_sample s (predictor s) = Inr s' \<and>
     predictor s' = min 255 (predictor s + step) \<and>
     (predictor s' = predictor s) = (predictor s = 255)"
proof -
  from encode_loop_init [of samples] obtain s where
    s: "encode_loop encoder_init samples = Inr s" "enc_inv s"
    by blast
  from s(2) have v: "valid_q (predictor s) (step_index s)"
    by (simp add: enc_inv_def)
  then have i: "0 \<le> step_index s" "step_index s \<le> 15"
    and p: "0 \<le> predictor s" "predictor s \<le> 255"
    by (simp_all add: valid_q_def)
  let ?step = "q_step (step_index s)"
  have pos: "0 < ?step"
    using i by (rule q_step_pos)
  have code: "q_code (predictor s) (step_index s) (predictor s) = 1"
    using i by (rule q_code_zero_diff)
  from encode_sample_inv [OF s(2), of "predictor s"] obtain s' where
    s': "encode_sample s (predictor s) = Inr s'"
      "predictor s' = q_pred (predictor s) (step_index s) 1"
    by (auto simp: code)
  have p': "predictor s' = min 255 (predictor s + ?step)"
    using s'(2) v by (simp add: q_pred_code_1)
  have "list_index enc_step_table (step_index s) = Inr ?step"
    using i by (rule list_index_enc_step)
  moreover have "enc_quantize s (predictor s) = Inr (?step, 1)"
    using enc_quantize_valid [OF v, of "predictor s"] by (simp add: code)
  moreover have "(predictor s' = predictor s) = (predictor s = 255)"
    using p' pos p by auto
  ultimately show ?thesis
    using s(1) s'(1) p' pos by blast
qed

end
